theory Spec2Isabelle
  imports Main "HOL-Library.Word"
begin

section \<open>Window-based LSB encoding: the data model of wlsb.c\<close>

text \<open>
  Modelled from the spec: the declarations of \<^verbatim>\<open>wlsb.h\<close> (\<^verbatim>\<open>struct c_window\<close>,
  \<^verbatim>\<open>struct c_wlsb\<close>) are not part of the sources at hand. The fields are the ones
  \<^verbatim>\<open>wlsb.c\<close> reads and writes, with the widths the specification gives: a 16-bit
  sequence number, a 32-bit value and a flag per window entry; sizes and indices of
  type \<^verbatim>\<open>size_t\<close>, which are natural numbers here. No index computation of the file
  can wrap: the only additions are \<^verbatim>\<open>x + 1\<close> for an \<^verbatim>\<open>x\<close> below the window width.
  The fields \<^verbatim>\<open>value\<close> and \<^verbatim>\<open>next\<close> carry a suffix \<^verbatim>\<open>_w\<close>, since both words
  are reserved in Isabelle.
\<close>

type_synonym uint16_t = "16 word"
type_synonym uint32_t = "32 word"
type_synonym int32_t = "32 word"

record c_window =
  sn :: uint16_t
  value_w :: uint32_t
  is_used :: bool

record c_wlsb =
  window :: "c_window list"
  window_width :: nat
  oldest :: nat
  next_w :: nat
  bits :: nat
  p :: int32_t

text \<open>
  The interval function \<^verbatim>\<open>f(v_ref, k, p, &min, &max)\<close> of \<^verbatim>\<open>interval.h\<close> is an
  external collaborator: every definition that calls it takes it as a parameter.
\<close>

type_synonym interval_fn = "uint32_t \<Rightarrow> nat \<Rightarrow> int32_t \<Rightarrow> uint32_t \<times> uint32_t"

text \<open>
  A failed \<^verbatim>\<open>assert\<close> aborts the program. A pointer to a W-LSB object is an
  optional object, \<open>None\<close> being \<^verbatim>\<open>NULL\<close>. The window of an object is a list:
  \<^verbatim>\<open>c_create_wlsb\<close> returns no object without its window, so the assertions
  \<^verbatim>\<open>wlsb->window != NULL\<close> cannot fail and have no branch.
\<close>

datatype abort = Assertion_failed

text \<open>
  A well-formed object: the window has \<^verbatim>\<open>window_width\<close> slots, both indices
  point into it, and the width fits into an \<^verbatim>\<open>int\<close>, the type of the loop
  counters of the acknowledgement code. \<^verbatim>\<open>c_create_wlsb\<close> returns such an object
  and every operation keeps it so (\<open>run_calls_ok\<close> below). On any other object the
  C code reads and writes outside the window, which C leaves undefined; the theorems
  are about well-formed objects.
\<close>

definition INT_MAX :: nat where
  "INT_MAX = 2147483647"

definition wlsb_ok :: "c_wlsb \<Rightarrow> bool" where
  "wlsb_ok s \<longleftrightarrow>
     length (window s) = window_width s \<and> 0 < window_width s \<and>
     window_width s \<le> INT_MAX \<and> 0 < bits s \<and>
     oldest s < window_width s \<and> next_w s < window_width s"

section \<open>The operations\<close>

subsection \<open>Loops that mark entries as unused\<close>

text \<open>\<^verbatim>\<open>for(j = from; j < to; j++) window[j].is_used = 0;\<close>\<close>

function clear_loop :: "c_window list \<Rightarrow> nat \<Rightarrow> nat \<Rightarrow> c_window list" where
  "clear_loop win j to =
     (if j < to then clear_loop (win[j := (win ! j)\<lparr>is_used := False\<rparr>]) (Suc j) to
      else win)"
  by pat_completeness auto
termination
  by (relation "measure (\<lambda>(win, j, to). to - j)") auto

subsection \<open>c_create_wlsb\<close>

text \<open>
  The two booleans say whether \<^verbatim>\<open>malloc\<close> and \<^verbatim>\<open>calloc\<close> succeed. Both blocks
  are zeroed before the fields are set.
\<close>

definition zeroed_entry :: c_window where
  "zeroed_entry = \<lparr>sn = 0, value_w = 0, is_used = False\<rparr>"

definition c_create_wlsb ::
  "bool \<Rightarrow> bool \<Rightarrow> nat \<Rightarrow> nat \<Rightarrow> int32_t \<Rightarrow> abort + c_wlsb option" where
  "c_create_wlsb malloc_ok calloc_ok bits0 width0 p0 =
     (if \<not> 0 < bits0 then Inl Assertion_failed
      else if \<not> 0 < width0 then Inl Assertion_failed
      else if \<not> malloc_ok then Inr None
      else if \<not> calloc_ok then Inr None
      else Inr (Some
        \<lparr>window = clear_loop (replicate width0 zeroed_entry) 0 width0,
         window_width = width0, oldest = 0, next_w = 0, bits = bits0, p = p0\<rparr>))"

subsection \<open>c_add_wlsb\<close>

definition c_add_wlsb :: "c_wlsb option \<Rightarrow> uint16_t \<Rightarrow> uint32_t \<Rightarrow> abort + c_wlsb option" where
  "c_add_wlsb wlsb sn0 value0 =
     (case wlsb of
        None \<Rightarrow> Inl Assertion_failed
      | Some s \<Rightarrow>
          if \<not> next_w s < window_width s then Inl Assertion_failed
          else
            let s1 = (if is_used (window s ! next_w s)
                      then s\<lparr>oldest := (oldest s + 1) mod window_width s\<rparr> else s);
                s2 = s1\<lparr>window := (window s1)
                        [next_w s1 := (window s1 ! next_w s1)
                           \<lparr>sn := sn0, value_w := value0, is_used := True\<rparr>]\<rparr>
            in Inr (Some (s2\<lparr>next_w := (next_w s2 + 1) mod window_width s2\<rparr>)))"

subsection \<open>g and c_get_k_wlsb\<close>

text \<open>The loop of \<^verbatim>\<open>g\<close>, from the counter \<open>k\<close> on; the result is the counter at exit.\<close>

function g_loop :: "interval_fn \<Rightarrow> uint32_t \<Rightarrow> uint32_t \<Rightarrow> int32_t \<Rightarrow> nat \<Rightarrow> nat \<Rightarrow> nat" where
  "g_loop f v_ref v p0 bits_nr k =
     (if k < bits_nr
      then (let (mn, mx) = f v_ref k p0
            in if v \<ge> mn \<and> v \<le> mx then k else g_loop f v_ref v p0 bits_nr (Suc k))
      else k)"
  by pat_completeness auto
termination
  by (relation "measure (\<lambda>(f, v_ref, v, p0, bits_nr, k). bits_nr - k)") auto

definition g :: "interval_fn \<Rightarrow> uint32_t \<Rightarrow> uint32_t \<Rightarrow> int32_t \<Rightarrow> nat \<Rightarrow> nat" where
  "g f v_ref v p0 bits_nr = g_loop f v_ref v p0 bits_nr 0"

text \<open>
  The scan of \<^verbatim>\<open>c_get_k_wlsb\<close> over the window, from index \<open>entry\<close> on, with the
  locals \<^verbatim>\<open>valid\<close>, \<^verbatim>\<open>min\<close> and \<^verbatim>\<open>max\<close>.
\<close>

function get_k_scan ::
  "c_wlsb \<Rightarrow> nat \<Rightarrow> bool \<times> uint32_t \<times> uint32_t \<Rightarrow> bool \<times> uint32_t \<times> uint32_t" where
  "get_k_scan s entry (valid, mn, mx) =
     (if entry < window_width s then
        (if \<not> is_used (window s ! entry) then get_k_scan s (Suc entry) (valid, mn, mx)
         else
           let mn' = (if value_w (window s ! entry) < mn then value_w (window s ! entry) else mn);
               mx' = (if value_w (window s ! entry) > mx then value_w (window s ! entry) else mx)
           in get_k_scan s (Suc entry) (True, mn', mx'))
      else (valid, mn, mx))"
  by pat_completeness auto
termination
  by (relation "measure (\<lambda>(s, entry, l). window_width s - entry)") auto

text \<open>
  The call takes the object, the value and the content of the caller's cell
  \<^verbatim>\<open>*bits_nr\<close>; it gives back the return value, the object and the cell after the
  call.
\<close>

definition c_get_k_wlsb ::
  "interval_fn \<Rightarrow> c_wlsb option \<Rightarrow> uint32_t \<Rightarrow> nat \<Rightarrow> abort + (int \<times> c_wlsb option \<times> nat)" where
  "c_get_k_wlsb f wlsb value0 bits_nr =
     (case wlsb of
        None \<Rightarrow> Inl Assertion_failed
      | Some s \<Rightarrow>
          let (valid, mn, mx) = get_k_scan s 0 (False, 0xffffffff, 0)
          in if valid then
               let k1 = g f mn value0 (p s) (bits s);
                   k2 = g f mx value0 (p s) (bits s)
               in Inr (1, Some s, if k1 > k2 then k1 else k2)
             else Inr (0, Some s, bits_nr))"

subsection \<open>c_ack_sn_wlsb and c_ack_remove\<close>

text \<open>
  One search loop of \<^verbatim>\<open>c_ack_sn_wlsb\<close>: from \<open>i\<close> up to \<open>to\<close>, leaving with
  \<^verbatim>\<open>found\<close> and the counter. The argument \<^verbatim>\<open>sn\<close> is an \<^verbatim>\<open>int\<close>, to which the
  stored 16-bit number is promoted for the comparison.
\<close>

function ack_search :: "c_wlsb \<Rightarrow> int \<Rightarrow> nat \<Rightarrow> nat \<Rightarrow> bool \<times> nat" where
  "ack_search s sn0 i to =
     (if i < to then
        (if is_used (window s ! i) \<and> uint (sn (window s ! i)) = sn0 then (True, i)
         else ack_search s sn0 (Suc i) to)
      else (False, i))"
  by pat_completeness auto
termination
  by (relation "measure (\<lambda>(s, sn0, i, to). to - i)") auto

text \<open>
  One loop that fixes \<^verbatim>\<open>s->next\<close>: from \<open>j\<close> up to \<open>to\<close>, advancing \<open>nxt\<close> over
  used entries and leaving at the first unused one.
\<close>

function next_loop :: "c_wlsb \<Rightarrow> nat \<Rightarrow> nat \<Rightarrow> nat \<Rightarrow> nat" where
  "next_loop s j to nxt =
     (if j < to then
        (if is_used (window s ! j) then next_loop s (Suc j) to ((nxt + 1) mod window_width s)
         else nxt)
      else nxt)"
  by pat_completeness auto
termination
  by (relation "measure (\<lambda>(s, j, to, nxt). to - j)") auto

definition c_ack_remove :: "c_wlsb option \<Rightarrow> nat \<Rightarrow> c_wlsb option" where
  "c_ack_remove sp index =
     (case sp of
        None \<Rightarrow> None
      | Some s \<Rightarrow>
          let s1 = (if oldest s = index
                    then s\<lparr>window := (window s)
                            [oldest s := (window s ! oldest s)\<lparr>is_used := False\<rparr>]\<rparr>
                    else if oldest s < index
                    then s\<lparr>window := clear_loop (window s) (oldest s) index\<rparr>
                    else s\<lparr>window := clear_loop
                            (clear_loop (window s) (oldest s) (window_width s)) 0 index\<rparr>);
              s2 = (if index \<ge> window_width s1 - 1 then s1\<lparr>oldest := 0\<rparr>
                    else (let t = s1\<lparr>oldest := index\<rparr>
                          in if oldest t \<ge> window_width t then t\<lparr>oldest := 0\<rparr> else t));
              s3 = s2\<lparr>next_w := oldest s2\<rparr>;
              s4 = s3\<lparr>next_w := next_loop s3 (oldest s3) (window_width s3) (next_w s3)\<rparr>;
              s5 = s4\<lparr>next_w := next_loop s4 0 (oldest s4) (next_w s4)\<rparr>
          in Some (if oldest s5 \<ge> window_width s5 then s5\<lparr>oldest := 0\<rparr> else s5))"

definition c_ack_sn_wlsb :: "c_wlsb option \<Rightarrow> int \<Rightarrow> c_wlsb option" where
  "c_ack_sn_wlsb sp sn0 =
     (case sp of
        None \<Rightarrow> None
      | Some s \<Rightarrow>
          let (found, i) = ack_search s sn0 (oldest s) (window_width s);
              (found, i) = (if \<not> found then ack_search s sn0 0 (oldest s) else (found, i))
          in if found then c_ack_remove (Some s) i else Some s)"

section \<open>Notions of the specification\<close>

subsection \<open>The interval test and the least bit count\<close>

text \<open>The value \<open>v\<close> lies in the interval \<open>f(v_ref, k, p)\<close>.\<close>

definition in_interval :: "interval_fn \<Rightarrow> uint32_t \<Rightarrow> nat \<Rightarrow> int32_t \<Rightarrow> uint32_t \<Rightarrow> bool" where
  "in_interval f v_ref k p0 v = (case f v_ref k p0 of (lo, hi) \<Rightarrow> lo \<le> v \<and> v \<le> hi)"

text \<open>
  \<open>k\<close> is what the search for \<open>v_ref\<close> must give: the least \<open>k\<close> below \<open>max_bits\<close>
  whose interval contains \<open>v\<close>, and \<open>max_bits\<close> itself when there is none.
\<close>

definition minimal_k :: "interval_fn \<Rightarrow> uint32_t \<Rightarrow> uint32_t \<Rightarrow> int32_t \<Rightarrow> nat \<Rightarrow> nat \<Rightarrow> bool" where
  "minimal_k f v_ref v p0 max_bits k \<longleftrightarrow>
     k \<le> max_bits \<and> (k < max_bits \<longrightarrow> in_interval f v_ref k p0 v) \<and>
     (\<forall>j<k. \<not> in_interval f v_ref j p0 v)"

text \<open>The values of the entries in use, in window order.\<close>

definition used_values :: "c_wlsb \<Rightarrow> uint32_t list" where
  "used_values s = map value_w (filter is_used (window s))"

text \<open>The indices from \<open>e\<close> on whose entries are in use (for the scan of the window).\<close>

definition used_from :: "c_wlsb \<Rightarrow> nat \<Rightarrow> nat set" where
  "used_from s e = {i. e \<le> i \<and> i < window_width s \<and> is_used (window s ! i)}"

subsection \<open>The circular scan of the acknowledgement\<close>

text \<open>The entry at index \<open>i\<close> is in use and carries the sequence number \<open>sn0\<close>.\<close>

definition sn_match :: "c_wlsb \<Rightarrow> int \<Rightarrow> nat \<Rightarrow> bool" where
  "sn_match s sn0 i \<longleftrightarrow> is_used (window s ! i) \<and> uint (sn (window s ! i)) = sn0"

text \<open>The slots of the ring in the order of a walk from \<open>oldest\<close>, forward and circular.\<close>

definition circular_order :: "c_wlsb \<Rightarrow> nat list" where
  "circular_order s =
     map (\<lambda>d. (oldest s + d) mod window_width s) [0..<window_width s]"

text \<open>The first slot of that walk whose entry matches, if there is one.\<close>

definition first_match :: "c_wlsb \<Rightarrow> int \<Rightarrow> nat option" where
  "first_match s sn0 = find (sn_match s sn0) (circular_order s)"

text \<open>The slots that the walk visits before it reaches \<open>index\<close>.\<close>

definition slots_before :: "c_wlsb \<Rightarrow> nat \<Rightarrow> nat list" where
  "slots_before s index = takeWhile (\<lambda>j. j \<noteq> index) (circular_order s)"

text \<open>The window after the marking phase of \<^verbatim>\<open>c_ack_remove\<close>.\<close>

definition marked_window :: "c_wlsb \<Rightarrow> nat \<Rightarrow> c_window list" where
  "marked_window s index =
     (if oldest s = index
      then (window s)[oldest s := (window s ! oldest s)\<lparr>is_used := False\<rparr>]
      else if oldest s < index then clear_loop (window s) (oldest s) index
      else clear_loop (clear_loop (window s) (oldest s) (window_width s)) 0 index)"

subsection \<open>Sequences of calls\<close>

text \<open>
  A caller holds the pointer to the object and a cell for the bit count, and calls the
  three operations in any order. A run stops at the first failed assertion.
\<close>

datatype wlsb_call = Insert uint16_t uint32_t | Acknowledge int | Minimal_bits uint32_t

fun apply_call ::
  "interval_fn \<Rightarrow> wlsb_call \<Rightarrow> c_wlsb option \<times> nat \<Rightarrow> abort + (c_wlsb option \<times> nat)" where
  "apply_call f (Insert sn0 v) (h, b) =
     (case c_add_wlsb h sn0 v of Inl a \<Rightarrow> Inl a | Inr h' \<Rightarrow> Inr (h', b))"
| "apply_call f (Acknowledge sn0) (h, b) = Inr (c_ack_sn_wlsb h sn0, b)"
| "apply_call f (Minimal_bits v) (h, b) =
     (case c_get_k_wlsb f h v b of Inl a \<Rightarrow> Inl a | Inr (r, h', b') \<Rightarrow> Inr (h', b'))"

fun run_calls ::
  "interval_fn \<Rightarrow> wlsb_call list \<Rightarrow> c_wlsb option \<times> nat \<Rightarrow> abort + (c_wlsb option \<times> nat)" where
  "run_calls f [] st = Inr st"
| "run_calls f (c # cs) st =
     (case apply_call f c st of Inl a \<Rightarrow> Inl a | Inr st' \<Rightarrow> run_calls f cs st')"

text \<open>The number of entries in use.\<close>

definition used_count :: "c_wlsb \<Rightarrow> nat" where
  "used_count s = length (filter is_used (window s))"

text \<open>
  What \<^verbatim>\<open>c_add_wlsb\<close> makes of a well-formed object: the slot at \<open>next\<close> is
  overwritten, \<open>oldest\<close> advances when that slot was in use, \<open>next\<close> advances.
\<close>

definition inserted :: "c_wlsb \<Rightarrow> uint16_t \<Rightarrow> uint32_t \<Rightarrow> c_wlsb" where
  "inserted s sn0 v =
     s\<lparr>window := (window s)[next_w s := \<lparr>sn = sn0, value_w = v, is_used = True\<rparr>],
       oldest := (if is_used (window s ! next_w s)
                  then (oldest s + 1) mod window_width s else oldest s),
       next_w := (next_w s + 1) mod window_width s\<rparr>"

text \<open>The number of consecutive entries in use from index \<open>j\<close> on, below \<open>to\<close>.\<close>

definition run_len :: "c_window list \<Rightarrow> nat \<Rightarrow> nat \<Rightarrow> nat" where
  "run_len win j to = length (takeWhile (\<lambda>k. is_used (win ! k)) [j..<to])"

text \<open>What \<^verbatim>\<open>c_ack_remove\<close> makes of an object, for an index inside the window.\<close>

definition acked :: "c_wlsb \<Rightarrow> nat \<Rightarrow> c_wlsb" where
  "acked s index =
     (let win = marked_window s index;
          old = (if index = window_width s - 1 then 0 else index)
      in s\<lparr>window := win, oldest := old,
           next_w := ((old + run_len win old (window_width s)) mod window_width s
                        + run_len win 0 old) mod window_width s\<rparr>)"

subsection \<open>The contiguous run\<close>

text \<open>
  The entries in use are the \<open>n\<close> slots from \<open>oldest\<close> on, around the ring, and
  \<open>next\<close> is the slot after them.
\<close>

definition ring_inv :: "c_wlsb \<Rightarrow> nat \<Rightarrow> bool" where
  "ring_inv s n \<longleftrightarrow>
     n \<le> window_width s \<and>
     (\<forall>j<window_width s. is_used (window s ! j) \<longleftrightarrow>
        (oldest s \<le> j \<and> j < oldest s + n) \<or> j + window_width s < oldest s + n) \<and>
     next_w s = (if oldest s + n < window_width s then oldest s + n
                 else oldest s + n - window_width s)"

text \<open>
  The entries in use form a contiguous circular run that starts at \<open>oldest\<close>: in the
  walk from \<open>oldest\<close>, no entry is in use after the first one that is not.
\<close>

definition contiguous_run :: "c_wlsb \<Rightarrow> bool" where
  "contiguous_run s \<longleftrightarrow>
     list_all (\<lambda>j. \<not> is_used (window s ! j))
       (dropWhile (\<lambda>j. is_used (window s ! j)) (circular_order s))"

text \<open>
  An acknowledgement is plain when it finds no match, or finds its first match at a
  slot that is neither \<open>oldest\<close> nor the last slot of the window. A run is plain
  when each of its acknowledgements is, in the state in which it is called.
\<close>

definition plain_ack :: "c_wlsb \<Rightarrow> int \<Rightarrow> bool" where
  "plain_ack s sn0 =
     (case first_match s sn0 of
        None \<Rightarrow> True
      | Some i \<Rightarrow> i \<noteq> oldest s \<and> i \<noteq> window_width s - 1)"

fun plain_call :: "wlsb_call \<Rightarrow> c_wlsb option \<times> nat \<Rightarrow> bool" where
  "plain_call (Acknowledge sn0) (Some s, b) = plain_ack s sn0"
| "plain_call c st = True"

fun plain_run :: "interval_fn \<Rightarrow> wlsb_call list \<Rightarrow> c_wlsb option \<times> nat \<Rightarrow> bool" where
  "plain_run f [] st = True"
| "plain_run f (c # cs) st =
     (plain_call c st \<and>
      (case apply_call f c st of Inl a \<Rightarrow> True | Inr st' \<Rightarrow> plain_run f cs st'))"

text \<open>
  The slot that a walk from \<open>oldest\<close> reaches first among those not in use, or
  \<open>oldest\<close> again when every slot is in use.
\<close>

definition walk_next :: "c_wlsb \<Rightarrow> nat" where
  "walk_next s =
     (oldest s + length (takeWhile (\<lambda>j. is_used (window s ! j)) (circular_order s)))
       mod window_width s"

subsection \<open>Concrete objects for running the operations\<close>

text \<open>
  An interval function for concrete runs, of the shape of RFC 3095, 4.5.1:
  \<open>[v_ref - p, v_ref + (2^k - 1) - p]\<close>. No theorem below depends on it; the
  theorems hold for every interval function.
\<close>

definition lsb_interval :: interval_fn where
  "lsb_interval v_ref k p0 = (v_ref - p0, v_ref + (2 ^ k - 1) - p0)"

text \<open>
  A window of width 3 after the insertions of (1, 100), (2, 101), (3, 102) and
  (4, 103), with at most 4 bits and shift parameter 0.
\<close>

definition example_window :: c_wlsb where
  "example_window =
     \<lparr>window = [\<lparr>sn = 4, value_w = 103, is_used = True\<rparr>,
                \<lparr>sn = 2, value_w = 101, is_used = True\<rparr>,
                \<lparr>sn = 3, value_w = 102, is_used = True\<rparr>],
      window_width = 3, oldest = 1, next_w = 1, bits = 4, p = 0\<rparr>"

text \<open>The object that \<^verbatim>\<open>c_create_wlsb(4, 3, 0)\<close> returns.\<close>

definition example_fresh :: c_wlsb where
  "example_fresh =
     \<lparr>window = [zeroed_entry, zeroed_entry, zeroed_entry],
      window_width = 3, oldest = 0, next_w = 0, bits = 4, p = 0\<rparr>"

text \<open>
  The object of width 3 after the insertions of (1, 10) and (2, 20) and the
  acknowledgement of 1.
\<close>

definition example_gap :: c_wlsb where
  "example_gap =
     \<lparr>window = [\<lparr>sn = 1, value_w = 10, is_used = False\<rparr>,
                \<lparr>sn = 2, value_w = 20, is_used = True\<rparr>,
                zeroed_entry],
      window_width = 3, oldest = 0, next_w = 0, bits = 4, p = 0\<rparr>"

text \<open>
  The object of width 3 after the insertions of (1, 10), (2, 20) and (3, 30) and the
  acknowledgement of 3.
\<close>

definition example_last :: c_wlsb where
  "example_last =
     \<lparr>window = [\<lparr>sn = 1, value_w = 10, is_used = False\<rparr>,
                \<lparr>sn = 2, value_w = 20, is_used = False\<rparr>,
                \<lparr>sn = 3, value_w = 30, is_used = True\<rparr>],
      window_width = 3, oldest = 0, next_w = 0, bits = 4, p = 0\<rparr>"

text \<open>
  The object \<open>example_gap\<close> after the further insertions of (7, 70) and (8, 80), and
  then after the acknowledgement of 8.
\<close>

definition example_stale :: c_wlsb where
  "example_stale =
     \<lparr>window = [\<lparr>sn = 7, value_w = 70, is_used = True\<rparr>,
                \<lparr>sn = 8, value_w = 80, is_used = True\<rparr>,
                zeroed_entry],
      window_width = 3, oldest = 1, next_w = 2, bits = 4, p = 0\<rparr>"

definition example_after :: c_wlsb where
  "example_after =
     \<lparr>window = [\<lparr>sn = 7, value_w = 70, is_used = True\<rparr>,
                \<lparr>sn = 8, value_w = 80, is_used = False\<rparr>,
                zeroed_entry],
      window_width = 3, oldest = 1, next_w = 2, bits = 4, p = 0\<rparr>"

text \<open>
  The loops are unfolded one step at a time, by instances of their equations.
\<close>

declare clear_loop.simps [simp del] g_loop.simps [simp del] get_k_scan.simps [simp del]
  ack_search.simps [simp del] next_loop.simps [simp del]

section \<open>The search for the bit count\<close>

subsection \<open>The loop of g\<close>

lemma g_loop_props:
  "k \<le> b \<Longrightarrow> k \<le> g_loop f r v q b k \<and> g_loop f r v q b k \<le> b \<and>
     (g_loop f r v q b k < b \<longrightarrow> in_interval f r (g_loop f r v q b k) q v) \<and>
     (\<forall>j. k \<le> j \<and> j < g_loop f r v q b k \<longrightarrow> \<not> in_interval f r j q v)"
proof (induction f r v q b k rule: g_loop.induct)
  case (1 f r v q b k)
  show ?case
  proof (cases "k < b")
    case False
    then have "g_loop f r v q b k = k" by (simp add: g_loop.simps[of f r v q b k])
    with "1.prems" False show ?thesis by auto
  next
    case True
    obtain lo hi where fk: "f r k q = (lo, hi)" by (cases "f r k q")
    show ?thesis
    proof (cases "lo \<le> v \<and> v \<le> hi")
      case True
      with \<open>k < b\<close> fk have "g_loop f r v q b k = k"
        by (simp add: g_loop.simps[of f r v q b k])
      with True \<open>k < b\<close> fk show ?thesis
        by (auto simp add: in_interval_def)
    next
      case False
      with \<open>k < b\<close> fk have eq: "g_loop f r v q b k = g_loop f r v q b (Suc k)"
        by (auto simp add: g_loop.simps[of f r v q b k])
      from False fk have nk: "\<not> in_interval f r k q v" by (simp add: in_interval_def)
      from "1.IH"[OF \<open>k < b\<close> fk[symmetric] refl False] \<open>k < b\<close>
      have ih: "Suc k \<le> g_loop f r v q b (Suc k) \<and> g_loop f r v q b (Suc k) \<le> b \<and>
         (g_loop f r v q b (Suc k) < b \<longrightarrow> in_interval f r (g_loop f r v q b (Suc k)) q v) \<and>
         (\<forall>j. Suc k \<le> j \<and> j < g_loop f r v q b (Suc k) \<longrightarrow> \<not> in_interval f r j q v)"
        by simp
      have "\<forall>j. k \<le> j \<and> j < g_loop f r v q b (Suc k) \<longrightarrow> \<not> in_interval f r j q v"
      proof (intro allI impI)
        fix j assume "k \<le> j \<and> j < g_loop f r v q b (Suc k)"
        then show "\<not> in_interval f r j q v" using ih nk by (cases "j = k") auto
      qed
      with ih show ?thesis unfolding eq by auto
    qed
  qed
qed

lemma g_minimal_k: "minimal_k f r v q b (g f r v q b)"
  using g_loop_props[of 0 b f r v q] by (simp add: minimal_k_def g_def)

text \<open>The least bit count is unique.\<close>

lemma minimal_k_unique:
  assumes "minimal_k f r v q b k" and "minimal_k f r v q b k'"
  shows "k = k'"
proof (rule ccontr)
  assume "k \<noteq> k'"
  then consider "k < k'" | "k' < k" by linarith
  then show False
  proof cases
    case 1
    with assms show ?thesis unfolding minimal_k_def by (metis le_trans less_le_not_le not_le)
  next
    case 2
    with assms show ?thesis unfolding minimal_k_def by (metis le_trans less_le_not_le not_le)
  qed
qed

subsection \<open>The scan of the window\<close>

lemma used_from_step:
  "e < window_width s \<Longrightarrow>
     used_from s e = (if is_used (window s ! e) then insert e (used_from s (Suc e))
                      else used_from s (Suc e))"
  unfolding used_from_def
  by (auto simp: Suc_le_eq le_less elim: le_neq_implies_less)

lemma used_from_beyond: "\<not> e < window_width s \<Longrightarrow> used_from s e = {}"
  by (auto simp: used_from_def)

lemma finite_used_from: "finite (used_from s e)"
  by (simp add: used_from_def)

lemma Min_insert_min:
  fixes a b :: "'a::linorder"
  assumes "finite A"
  shows "Min (insert (min a b) A) = Min (insert b (insert a A))"
proof (cases "A = {}")
  case True
  then show ?thesis by (simp add: min.commute)
next
  case False
  with assms show ?thesis by (simp add: min.assoc min.commute min.left_commute)
qed

lemma Max_insert_max:
  fixes a b :: "'a::linorder"
  assumes "finite A"
  shows "Max (insert (max a b) A) = Max (insert b (insert a A))"
proof (cases "A = {}")
  case True
  then show ?thesis by (simp add: max.commute)
next
  case False
  with assms show ?thesis by (simp add: max.assoc max.commute max.left_commute)
qed

lemma get_k_scan_eq:
  "get_k_scan s e (valid, mn, mx) =
     (valid \<or> used_from s e \<noteq> {},
      Min (insert mn ((\<lambda>i. value_w (window s ! i)) ` used_from s e)),
      Max (insert mx ((\<lambda>i. value_w (window s ! i)) ` used_from s e)))"
proof (induction s e "(valid, mn, mx)" arbitrary: valid mn mx rule: get_k_scan.induct)
  case (1 s e valid mn mx)
  let ?val = "\<lambda>i. value_w (window s ! i)"
  show ?case
  proof (cases "e < window_width s")
    case False
    then show ?thesis
      by (simp add: used_from_beyond get_k_scan.simps[of s e valid mn mx])
  next
    case lt: True
    show ?thesis
    proof (cases "is_used (window s ! e)")
      case False
      with lt have "get_k_scan s e (valid, mn, mx) = get_k_scan s (Suc e) (valid, mn, mx)"
        by (simp add: get_k_scan.simps[of s e valid mn mx])
      also have "\<dots> = (valid \<or> used_from s (Suc e) \<noteq> {},
          Min (insert mn (?val ` used_from s (Suc e))),
          Max (insert mx (?val ` used_from s (Suc e))))"
        using "1.hyps"(1)[OF lt] False by simp
      finally show ?thesis using False lt by (simp add: used_from_step)
    next
      case True
      have fin: "finite (?val ` used_from s (Suc e))" by (simp add: finite_used_from)
      have mn: "(if ?val e < mn then ?val e else mn) = min (?val e) mn"
        by (auto simp: min_def)
      have mx: "(if ?val e > mx then ?val e else mx) = max (?val e) mx"
        by (auto simp: max_def)
      from True lt have "get_k_scan s e (valid, mn, mx) =
          get_k_scan s (Suc e) (True, min (?val e) mn, max (?val e) mx)"
        by (simp add: mn mx Let_def get_k_scan.simps[of s e valid mn mx])
      also have "\<dots> = (True,
          Min (insert (min (?val e) mn) (?val ` used_from s (Suc e))),
          Max (insert (max (?val e) mx) (?val ` used_from s (Suc e))))"
        using "1.hyps"(2) lt True
        by (simp add: mn mx)
      finally show ?thesis using True lt
        by (simp add: used_from_step[of e s] Min_insert_min[OF fin] Max_insert_max[OF fin])
    qed
  qed
qed


lemma used_from_0:
  assumes "length (window s) = window_width s"
  shows "(\<lambda>i. value_w (window s ! i)) ` used_from s 0 = set (used_values s)"
proof -
  have "set (used_values s) = value_w ` {e \<in> set (window s). is_used e}"
    by (simp add: used_values_def)
  also have "{e \<in> set (window s). is_used e} = (\<lambda>i. window s ! i) ` used_from s 0"
    using assms by (auto simp: used_from_def in_set_conv_nth)
  finally show ?thesis by (simp add: image_image)
qed

lemma used_from_0_empty:
  assumes "length (window s) = window_width s"
  shows "used_from s 0 = {} \<longleftrightarrow> (\<forall>e\<in>set (window s). \<not> is_used e)"
proof
  assume "used_from s 0 = {}"
  then show "\<forall>e\<in>set (window s). \<not> is_used e"
    using assms by (auto simp: used_from_def in_set_conv_nth)
next
  assume "\<forall>e\<in>set (window s). \<not> is_used e"
  then have "\<And>i. i < window_width s \<Longrightarrow> \<not> is_used (window s ! i)"
    using assms nth_mem by metis
  then show "used_from s 0 = {}" by (auto simp: used_from_def)
qed

lemma get_k_scan_window:
  assumes "length (window s) = window_width s"
  shows "get_k_scan s 0 (False, 0xffffffff, 0) =
     (if \<exists>e\<in>set (window s). is_used e
      then (True, Min (set (used_values s)), Max (set (used_values s)))
      else (False, 0xffffffff, 0))"
proof (cases "\<exists>e\<in>set (window s). is_used e")
  case False
  with used_from_0_empty[OF assms] have "used_from s 0 = {}" by simp
  with False show ?thesis by (simp add: get_k_scan_eq)
next
  case True
  with used_from_0_empty[OF assms] have ne: "used_from s 0 \<noteq> {}" by simp
  let ?V = "set (used_values s)"
  have V: "(\<lambda>i. value_w (window s ! i)) ` used_from s 0 = ?V"
    by (rule used_from_0[OF assms])
  from ne V have Vne: "?V \<noteq> {}" by auto
  have "(- 1 :: uint32_t) = 0xffffffff" by simp
  then have top: "\<And>x::uint32_t. x \<le> 0xffffffff"
    using word_order.extremum[where 'a=32] by metis
  have "Min (insert 0xffffffff ?V) = Min ?V"
    using Vne top by (simp add: min_absorb2)
  moreover have "Max (insert 0 ?V) = Max ?V"
    using Vne by (simp add: max_absorb2)
  ultimately show ?thesis using True ne by (simp add: get_k_scan_eq V)
qed

subsection \<open>c_get_k_wlsb\<close>

lemma c_get_k_wlsb_used:
  assumes "wlsb_ok s" and "\<exists>e\<in>set (window s). is_used e"
  shows "c_get_k_wlsb f (Some s) v b =
           Inr (1, Some s, max (g f (Min (set (used_values s))) v (p s) (bits s))
                               (g f (Max (set (used_values s))) v (p s) (bits s)))"
proof -
  from assms(1) have len: "length (window s) = window_width s" by (simp add: wlsb_ok_def)
  show ?thesis
    using assms(2) by (simp add: c_get_k_wlsb_def get_k_scan_window[OF len] max_def Let_def)
qed

lemma example_window_ok: "wlsb_ok example_window"
  by (simp add: wlsb_ok_def example_window_def INT_MAX_def)

lemma example_window_values: "used_values example_window = [103, 101, 102]"
  by (simp add: used_values_def example_window_def)

text \<open>
  C1: on an object with at least one entry in use, \<^verbatim>\<open>c_get_k_wlsb\<close> returns 1 and
  stores the greater of two bit counts: the one that the search gives for the least
  value in use and the one for the greatest value in use. Each of them is the least
  \<open>k\<close> below \<open>bits\<close> whose interval contains the value to encode (\<open>bits\<close> when there
  is none).
\<close>

theorem minimal_bits_max_of_searches:
  assumes "wlsb_ok s" and "\<exists>e\<in>set (window s). is_used e"
  shows "\<exists>k1 k2. c_get_k_wlsb f (Some s) v b = Inr (1, Some s, max k1 k2) \<and>
           minimal_k f (Min (set (used_values s))) v (p s) (bits s) k1 \<and>
           minimal_k f (Max (set (used_values s))) v (p s) (bits s) k2"
proof -
  have "c_get_k_wlsb f (Some s) v b =
          Inr (1, Some s, max (g f (Min (set (used_values s))) v (p s) (bits s))
                              (g f (Max (set (used_values s))) v (p s) (bits s)))"
    by (rule c_get_k_wlsb_used[OF assms])
  then show ?thesis using g_minimal_k by blast
qed

theorem minimal_bits_max_of_searches_witness:
  "c_get_k_wlsb lsb_interval (Some example_window) 103 0 = Inr (1, Some example_window, 2)"
proof -
  note ok = example_window_ok
  have ex: "\<exists>e\<in>set (window example_window). is_used e" by (simp add: example_window_def)
  note vals = example_window_values
  from minimal_bits_max_of_searches[OF ok ex, of lsb_interval 103 0]
  obtain k1 k2 where r: "c_get_k_wlsb lsb_interval (Some example_window) 103 0 =
        Inr (1, Some example_window, max k1 k2)"
    and k1: "minimal_k lsb_interval (Min (set (used_values example_window))) 103
        (p example_window) (bits example_window) k1"
    and k2: "minimal_k lsb_interval (Max (set (used_values example_window))) 103
        (p example_window) (bits example_window) k2" by blast
  have "Min (set (used_values example_window)) = 101" "Max (set (used_values example_window)) = 103"
    by (simp_all add: vals)
  moreover have "minimal_k lsb_interval 101 103 0 4 2" "minimal_k lsb_interval 103 103 0 4 0"
    by code_simp+
  ultimately have "k1 = 2" "k2 = 0"
    using k1 k2 minimal_k_unique by (simp_all add: example_window_def)
  with r show ?thesis by simp
qed

text \<open>
  C2: when, for the least or for the greatest value in use, no \<open>k\<close> below \<open>bits\<close>
  gives an interval that contains the value to encode, \<^verbatim>\<open>c_get_k_wlsb\<close> still
  returns 1, and the bit count it stores is \<open>bits\<close>.
\<close>

theorem minimal_bits_saturates:
  assumes "wlsb_ok s" and "\<exists>e\<in>set (window s). is_used e"
    and "(\<forall>k<bits s. \<not> in_interval f (Min (set (used_values s))) k (p s) v) \<or>
         (\<forall>k<bits s. \<not> in_interval f (Max (set (used_values s))) k (p s) v)"
  shows "c_get_k_wlsb f (Some s) v b = Inr (1, Some s, bits s)"
proof -
  let ?k1 = "g f (Min (set (used_values s))) v (p s) (bits s)"
  let ?k2 = "g f (Max (set (used_values s))) v (p s) (bits s)"
  have m1: "minimal_k f (Min (set (used_values s))) v (p s) (bits s) ?k1"
    and m2: "minimal_k f (Max (set (used_values s))) v (p s) (bits s) ?k2"
    by (rule g_minimal_k)+
  from m1 m2 have le: "?k1 \<le> bits s" "?k2 \<le> bits s" by (simp_all add: minimal_k_def)
  from assms(3) have "?k1 = bits s \<or> ?k2 = bits s"
  proof
    assume "\<forall>k<bits s. \<not> in_interval f (Min (set (used_values s))) k (p s) v"
    with m1 have "\<not> ?k1 < bits s" unfolding minimal_k_def by blast
    with le show ?thesis by simp
  next
    assume "\<forall>k<bits s. \<not> in_interval f (Max (set (used_values s))) k (p s) v"
    with m2 have "\<not> ?k2 < bits s" unfolding minimal_k_def by blast
    with le show ?thesis by simp
  qed
  with le have "max ?k1 ?k2 = bits s" by (auto simp: max_def)
  with c_get_k_wlsb_used[OF assms(1,2), of f v b] show ?thesis by simp
qed

theorem minimal_bits_saturates_witness:
  "c_get_k_wlsb lsb_interval (Some example_window) 200 0 = Inr (1, Some example_window, 4)"
proof -
  have ex: "\<exists>e\<in>set (window example_window). is_used e" by (simp add: example_window_def)
  have "Min (set (used_values example_window)) = 101"
    by (simp add: example_window_values)
  moreover have "\<forall>k<4. \<not> in_interval lsb_interval 101 k 0 200"
    by code_simp
  ultimately have "\<forall>k<bits example_window.
      \<not> in_interval lsb_interval (Min (set (used_values example_window))) k (p example_window) 200"
    by (simp add: example_window_def)
  then show ?thesis
    using minimal_bits_saturates[OF example_window_ok ex, of lsb_interval 200 0]
    by (simp add: example_window_def)
qed

text \<open>
  C8: on an object without any entry in use, \<^verbatim>\<open>c_get_k_wlsb\<close> returns 0 and leaves
  the caller's cell for the bit count as it was. The object that \<^verbatim>\<open>c_create_wlsb\<close>
  returns is such an object.
\<close>

lemma create_example_fresh: "c_create_wlsb True True 4 3 0 = Inr (Some example_fresh)"
  by (simp add: c_create_wlsb_def example_fresh_def zeroed_entry_def
      clear_loop.simps[of _ 0] clear_loop.simps[of _ "Suc 0"] clear_loop.simps[of _ "Suc (Suc 0)"]
      clear_loop.simps[of _ "Suc (Suc (Suc 0))"] numeral_3_eq_3)

theorem minimal_bits_empty_window:
  assumes "wlsb_ok s" and "\<forall>e\<in>set (window s). \<not> is_used e"
  shows "c_get_k_wlsb f (Some s) v b = Inr (0, Some s, b)"
proof -
  from assms(1) have len: "length (window s) = window_width s" by (simp add: wlsb_ok_def)
  show ?thesis
    using assms(2) by (simp add: c_get_k_wlsb_def get_k_scan_window[OF len])
qed

theorem minimal_bits_empty_window_witness:
  "c_create_wlsb True True 4 3 0 = Inr (Some example_fresh) \<and>
   c_get_k_wlsb lsb_interval (Some example_fresh) 103 7 = Inr (0, Some example_fresh, 7)"
proof -
  have ok: "wlsb_ok example_fresh" by (simp add: wlsb_ok_def example_fresh_def INT_MAX_def)
  have no: "\<forall>e\<in>set (window example_fresh). \<not> is_used e"
    by (simp add: example_fresh_def zeroed_entry_def)
  show ?thesis
    using minimal_bits_empty_window[OF ok no, of lsb_interval 103 7] create_example_fresh
    by simp
qed

text \<open>
  C10: \<^verbatim>\<open>c_get_k_wlsb\<close> leaves the object as it was, whatever the object and the
  value. Its return value does not depend on the caller's cell, and neither does the
  bit count it stores when it returns 1; when it returns 0 the cell is untouched.
\<close>

theorem minimal_bits_pure:
  "\<exists>r c1 c2. c_get_k_wlsb f (Some s) v b1 = Inr (r, Some s, c1) \<and>
             c_get_k_wlsb f (Some s) v b2 = Inr (r, Some s, c2) \<and>
             (r = 1 \<and> c1 = c2 \<or> r = 0 \<and> c1 = b1 \<and> c2 = b2)"
  by (simp add: c_get_k_wlsb_def Let_def split: prod.splits)

section \<open>Acknowledgement\<close>

subsection \<open>The loops\<close>

lemma clear_loop_length [simp]: "length (clear_loop win j to) = length win"
proof (induction win j to rule: clear_loop.induct)
  case (1 win j to)
  then show ?case by (simp add: clear_loop.simps[of win j to])
qed

lemma clear_loop_nth:
  "i < length win \<Longrightarrow>
     clear_loop win j to ! i =
       (if j \<le> i \<and> i < to then (win ! i)\<lparr>is_used := False\<rparr> else win ! i)"
proof (induction win j to rule: clear_loop.induct)
  case (1 win j to)
  show ?case
  proof (cases "j < to")
    case False
    then show ?thesis by (auto simp add: clear_loop.simps[of win j to])
  next
    case True
    let ?win' = "win[j := (win ! j)\<lparr>is_used := False\<rparr>]"
    from True have eq: "clear_loop win j to = clear_loop ?win' (Suc j) to"
      by (simp add: clear_loop.simps[of win j to])
    from "1.IH"[OF True] "1.prems"
    have ih: "clear_loop ?win' (Suc j) to ! i =
       (if Suc j \<le> i \<and> i < to then (?win' ! i)\<lparr>is_used := False\<rparr> else ?win' ! i)"
      by simp
    show ?thesis
    proof (cases "i = j")
      case True
      with ih eq \<open>j < to\<close> "1.prems" show ?thesis by simp
    next
      case False
      with ih eq "1.prems" show ?thesis by (auto simp: Suc_le_eq)
    qed
  qed
qed

lemma circular_order_split:
  assumes "oldest s < window_width s"
  shows "circular_order s = [oldest s..<window_width s] @ [0..<oldest s]"
proof (rule nth_equalityI)
  show "length (circular_order s) = length ([oldest s..<window_width s] @ [0..<oldest s])"
    using assms by (simp add: circular_order_def)
next
  fix d assume "d < length (circular_order s)"
  then have d: "d < window_width s" by (simp add: circular_order_def)
  show "circular_order s ! d = ([oldest s..<window_width s] @ [0..<oldest s]) ! d"
  proof (cases "oldest s + d < window_width s")
    case True
    then have "d < window_width s - oldest s" by linarith
    then show ?thesis using d True by (simp add: circular_order_def nth_append)
  next
    case False
    then have m: "(oldest s + d) mod window_width s = oldest s + d - window_width s"
      using d assms by (simp add: mod_if)
    from False have nd: "\<not> d < window_width s - oldest s" by linarith
    from False d assms have idx: "d - (window_width s - oldest s) < oldest s" by linarith
    have "([oldest s..<window_width s] @ [0..<oldest s]) ! d =
        [0..<oldest s] ! (d - (window_width s - oldest s))"
      using nd by (simp add: nth_append)
    also have "\<dots> = d - (window_width s - oldest s)"
      using idx by simp
    also have "\<dots> = oldest s + d - window_width s"
      using False assms by linarith
    finally show ?thesis using d m by (simp add: circular_order_def)
  qed
qed

lemma find_append_cases:
  "find P (xs @ ys) = (case find P xs of None \<Rightarrow> find P ys | Some x \<Rightarrow> Some x)"
  by (induction xs) auto

lemma ack_search_find:
  "ack_search s sn0 i to =
     (case find (sn_match s sn0) [i..<to] of
        Some j \<Rightarrow> (True, j) | None \<Rightarrow> (False, max i to))"
proof (induction s sn0 i to rule: ack_search.induct)
  case (1 s sn0 i to)
  show ?case
  proof (cases "i < to")
    case False
    then show ?thesis by (simp add: ack_search.simps[of s sn0 i to])
  next
    case True
    then have upt: "[i..<to] = i # [Suc i..<to]" by (simp add: upt_conv_Cons)
    show ?thesis
    proof (cases "sn_match s sn0 i")
      case m: True
      with True show ?thesis
        by (simp add: ack_search.simps[of s sn0 i to] upt sn_match_def)
    next
      case m: False
      with True have "ack_search s sn0 i to = ack_search s sn0 (Suc i) to"
        by (auto simp add: ack_search.simps[of s sn0 i to] sn_match_def)
      also have "\<dots> = (case find (sn_match s sn0) [Suc i..<to] of
        Some j \<Rightarrow> (True, j) | None \<Rightarrow> (False, max (Suc i) to))"
        using "1.IH"[OF True] m unfolding sn_match_def by blast
      finally show ?thesis using m True by (simp add: upt max_def split: option.splits)
    qed
  qed
qed

lemma c_ack_sn_wlsb_first_match:
  assumes "oldest s < window_width s"
  shows "c_ack_sn_wlsb (Some s) sn0 =
     (case first_match s sn0 of None \<Rightarrow> Some s | Some i \<Rightarrow> c_ack_remove (Some s) i)"
  by (simp add: c_ack_sn_wlsb_def ack_search_find first_match_def
      circular_order_split[OF assms] find_append_cases split: option.splits)


lemma takeWhile_neq_upt_in:
  assumes "a \<le> i" and "i \<le> b"
  shows "takeWhile (\<lambda>j. j \<noteq> i) [a..<b] = [a..<i]"
proof -
  from assms have "[a..<b] = [a..<i] @ [i..<b]"
    by (metis le_Suc_ex upt_add_eq_append)
  moreover have "takeWhile (\<lambda>j. j \<noteq> i) [i..<b] = []"
    by (cases "i < b") (simp_all add: upt_conv_Cons)
  moreover have "takeWhile (\<lambda>j. j \<noteq> i) ([a..<i] @ [i..<b]) =
      [a..<i] @ takeWhile (\<lambda>j. j \<noteq> i) [i..<b]"
    by (rule takeWhile_append2) auto
  ultimately show ?thesis by simp
qed

lemma slots_before_eq:
  assumes "oldest s < window_width s" and "index < window_width s"
  shows "slots_before s index =
     (if oldest s \<le> index then [oldest s..<index]
      else [oldest s..<window_width s] @ [0..<index])"
proof (cases "oldest s \<le> index")
  case True
  then have "takeWhile (\<lambda>j. j \<noteq> index) [oldest s..<window_width s] = [oldest s..<index]"
    using assms by (simp add: takeWhile_neq_upt_in)
  moreover have "index \<in> set [oldest s..<window_width s]" using True assms by simp
  ultimately show ?thesis using True
    by (simp add: slots_before_def circular_order_split[OF assms(1)] takeWhile_append1)
next
  case False
  then have "takeWhile (\<lambda>j. j \<noteq> index) ([oldest s..<window_width s] @ [0..<oldest s]) =
      [oldest s..<window_width s] @ takeWhile (\<lambda>j. j \<noteq> index) [0..<oldest s]"
    by (intro takeWhile_append2) auto
  moreover have "takeWhile (\<lambda>j. j \<noteq> index) [0..<oldest s] = [0..<index]"
    using False by (simp add: takeWhile_neq_upt_in)
  ultimately show ?thesis using False
    by (simp add: slots_before_def circular_order_split[OF assms(1)])
qed

subsection \<open>c_ack_remove and c_ack_sn_wlsb\<close>

lemma c_ack_remove_fields:
  assumes "index < window_width s"
  shows "\<exists>s'. c_ack_remove (Some s) index = Some s' \<and>
           window s' = marked_window s index \<and>
           oldest s' = (if index = window_width s - 1 then 0 else index) \<and>
           window_width s' = window_width s \<and> bits s' = bits s \<and> p s' = p s"
  using assms by (auto simp add: c_ack_remove_def Let_def marked_window_def)

lemma marked_window_length [simp]: "length (marked_window s index) = length (window s)"
  by (simp add: marked_window_def)

lemma marked_window_nth:
  assumes "length (window s) = window_width s" and "oldest s < window_width s"
    and "index < window_width s" and "j < window_width s"
  shows "marked_window s index ! j =
     (if j \<in> set (slots_before s index) \<or> (j = index \<and> index = oldest s)
      then (window s ! j)\<lparr>is_used := False\<rparr> else window s ! j)"
proof -
  consider "oldest s = index" | "oldest s < index" | "index < oldest s" by linarith
  then show ?thesis
  proof cases
    case 1
    then show ?thesis using assms
      by (auto simp add: marked_window_def slots_before_eq nth_list_update)
  next
    case 2
    then show ?thesis using assms
      by (auto simp add: marked_window_def slots_before_eq clear_loop_nth)
  next
    case 3
    then show ?thesis using assms
      by (auto simp add: marked_window_def slots_before_eq clear_loop_nth)
  qed
qed

lemma first_match_SomeD:
  assumes "first_match s sn0 = Some index"
  shows "index < window_width s \<and> sn_match s sn0 index"
proof -
  from assms have "index \<in> set (circular_order s)" "sn_match s sn0 index"
    unfolding first_match_def by (auto simp: find_Some_iff)
  then show ?thesis by (auto simp: circular_order_def)
qed

lemma index_notin_slots_before: "index \<notin> set (slots_before s index)"
  unfolding slots_before_def by (auto dest: set_takeWhileD)

text \<open>
  C3: when the first match of the circular scan from \<open>oldest\<close> is at a slot
  \<open>index\<close> other than \<open>oldest\<close>, \<^verbatim>\<open>c_ack_sn_wlsb\<close> leaves every slot that the
  walk from \<open>oldest\<close> visits before \<open>index\<close> (the slot \<open>oldest\<close> among them) marked
  as unused, the entry at \<open>index\<close> as it was, hence in use, and \<open>oldest\<close> at 0 when
  \<open>index\<close> is the last slot of the window and at \<open>index\<close> otherwise.
\<close>

theorem ack_general_case:
  assumes "wlsb_ok s" and "first_match s sn0 = Some index" and "index \<noteq> oldest s"
  shows "\<exists>s'. c_ack_sn_wlsb (Some s) sn0 = Some s' \<and>
           (\<forall>j\<in>set (slots_before s index). \<not> is_used (window s' ! j)) \<and>
           window s' ! index = window s ! index \<and> is_used (window s' ! index) \<and>
           oldest s' = (if index = window_width s - 1 then 0 else index)"
proof -
  from assms(1) have len: "length (window s) = window_width s"
    and old: "oldest s < window_width s" by (simp_all add: wlsb_ok_def)
  from first_match_SomeD[OF assms(2)] have idx: "index < window_width s"
    and used: "is_used (window s ! index)" by (simp_all add: sn_match_def)
  from c_ack_remove_fields[OF idx] obtain s' where
    r: "c_ack_remove (Some s) index = Some s'" and w: "window s' = marked_window s index"
    and o: "oldest s' = (if index = window_width s - 1 then 0 else index)" by blast
  have call: "c_ack_sn_wlsb (Some s) sn0 = Some s'"
    using assms(2) r by (simp add: c_ack_sn_wlsb_first_match[OF old])
  have before: "\<forall>j\<in>set (slots_before s index). \<not> is_used (window s' ! j)"
  proof
    fix j assume j: "j \<in> set (slots_before s index)"
    then have "j \<in> set (circular_order s)" unfolding slots_before_def
      by (auto dest: set_takeWhileD)
    then have "j < window_width s" using old by (auto simp: circular_order_def)
    with j show "\<not> is_used (window s' ! j)"
      by (simp add: w marked_window_nth[OF len old idx])
  qed
  have same: "window s' ! index = window s ! index"
    using assms(3) index_notin_slots_before[of index s]
    by (simp add: w marked_window_nth[OF len old idx idx])
  from call before same used o show ?thesis by auto
qed


theorem ack_general_case_witness:
  "\<exists>s'. c_ack_sn_wlsb (Some example_window) 3 = Some s' \<and>
      \<not> is_used (window s' ! 1) \<and> window s' ! 2 = window example_window ! 2 \<and>
      is_used (window s' ! 2) \<and> oldest s' = 0"
proof -
  have fm: "first_match example_window 3 = Some 2" by code_simp
  have ne: "(2::nat) \<noteq> oldest example_window" by (simp add: example_window_def)
  have sb: "slots_before example_window 2 = [1]" by code_simp
  show ?thesis
    using ack_general_case[OF example_window_ok fm ne]
    by (simp add: sb) (simp add: example_window_def)
qed

text \<open>
  C4: when the first match of the circular scan is at the slot \<open>oldest\<close> itself,
  \<^verbatim>\<open>c_ack_sn_wlsb\<close> marks that very entry as unused, and changes nothing else in
  the window.
\<close>

theorem ack_oldest_case:
  assumes "wlsb_ok s" and "first_match s sn0 = Some (oldest s)"
  shows "\<exists>s'. c_ack_sn_wlsb (Some s) sn0 = Some s' \<and>
           \<not> is_used (window s' ! oldest s) \<and>
           window s' = (window s)[oldest s := (window s ! oldest s)\<lparr>is_used := False\<rparr>]"
proof -
  from assms(1) have len: "length (window s) = window_width s"
    and old: "oldest s < window_width s" by (simp_all add: wlsb_ok_def)
  from c_ack_remove_fields[OF old] obtain s' where
    r: "c_ack_remove (Some s) (oldest s) = Some s'"
    and w: "window s' = marked_window s (oldest s)" by blast
  have "c_ack_sn_wlsb (Some s) sn0 = Some s'"
    using assms(2) r by (simp add: c_ack_sn_wlsb_first_match[OF old])
  then show ?thesis using w len old by (simp add: marked_window_def)
qed

theorem ack_oldest_case_witness:
  "\<exists>s'. c_ack_sn_wlsb (Some example_window) 2 = Some s' \<and>
      \<not> is_used (window s' ! 1) \<and>
      window s' = [\<lparr>sn = 4, value_w = 103, is_used = True\<rparr>,
                   \<lparr>sn = 2, value_w = 101, is_used = False\<rparr>,
                   \<lparr>sn = 3, value_w = 102, is_used = True\<rparr>]"
proof -
  have fm: "first_match example_window 2 = Some (oldest example_window)" by code_simp
  show ?thesis
    using ack_oldest_case[OF example_window_ok fm]
    by (simp add: example_window_def)
qed

text \<open>
  C9: when no entry in use carries the sequence number, \<^verbatim>\<open>c_ack_sn_wlsb\<close> leaves
  the object as it was: the window, \<open>oldest\<close>, \<open>next\<close> and the configuration.
\<close>

theorem ack_unmatched_unchanged:
  assumes "wlsb_ok s" and "\<forall>e\<in>set (window s). is_used e \<longrightarrow> uint (sn e) \<noteq> sn0"
  shows "c_ack_sn_wlsb (Some s) sn0 = Some s"
proof -
  from assms(1) have len: "length (window s) = window_width s"
    and old: "oldest s < window_width s" by (simp_all add: wlsb_ok_def)
  have "\<not> sn_match s sn0 i" if "i \<in> set (circular_order s)" for i
  proof -
    from that old have "i < length (window s)" by (auto simp: circular_order_def len)
    then have "window s ! i \<in> set (window s)" by (rule nth_mem)
    with assms(2) show ?thesis by (auto simp: sn_match_def)
  qed
  then have "first_match s sn0 = None" by (auto simp: first_match_def find_None_iff)
  then show ?thesis by (simp add: c_ack_sn_wlsb_first_match[OF old])
qed

theorem ack_unmatched_unchanged_witness:
  "c_ack_sn_wlsb (Some example_window) 9 = Some example_window"
proof -
  have "\<forall>e\<in>set (window example_window). is_used e \<longrightarrow> uint (sn e) \<noteq> 9"
    by (simp add: example_window_def)
  then show ?thesis by (rule ack_unmatched_unchanged[OF example_window_ok])
qed

section \<open>Well-formed objects and runs of calls\<close>

lemma create_fresh:
  assumes "0 < bits0" and "0 < C"
  shows "c_create_wlsb True True bits0 C p0 =
     Inr (Some \<lparr>window = replicate C zeroed_entry, window_width = C, oldest = 0,
                next_w = 0, bits = bits0, p = p0\<rparr>)"
proof -
  have "clear_loop (replicate C zeroed_entry) 0 C = replicate C zeroed_entry"
    by (rule nth_equalityI) (simp_all add: clear_loop_nth zeroed_entry_def)
  with assms show ?thesis by (simp add: c_create_wlsb_def)
qed


lemma entry_overwrite:
  "(e::c_window)\<lparr>sn := a, value_w := b, is_used := c\<rparr> = \<lparr>sn = a, value_w = b, is_used = c\<rparr>"
  by (cases e) simp

lemma c_add_wlsb_inserted:
  assumes "wlsb_ok s"
  shows "c_add_wlsb (Some s) sn0 v = Inr (Some (inserted s sn0 v))"
  using assms by (simp add: c_add_wlsb_def wlsb_ok_def inserted_def Let_def entry_overwrite)

lemma inserted_ok: "wlsb_ok s \<Longrightarrow> wlsb_ok (inserted s sn0 v)"
  by (simp add: wlsb_ok_def inserted_def)

lemma next_loop_eq:
  "nxt < window_width s \<Longrightarrow>
     next_loop s j to nxt = (nxt + run_len (window s) j to) mod window_width s"
proof (induction s j to nxt rule: next_loop.induct)
  case (1 s j to nxt)
  show ?case
  proof (cases "j < to")
    case False
    with "1.prems" show ?thesis by (simp add: next_loop.simps[of s j to nxt] run_len_def)
  next
    case True
    then have upt: "[j..<to] = j # [Suc j..<to]" by (simp add: upt_conv_Cons)
    show ?thesis
    proof (cases "is_used (window s ! j)")
      case False
      with True "1.prems" show ?thesis
        by (simp add: next_loop.simps[of s j to nxt] run_len_def upt)
    next
      case u: True
      have "(nxt + 1) mod window_width s < window_width s" using "1.prems" by simp
      from "1.IH"[OF True u this]
      have "next_loop s (Suc j) to ((nxt + 1) mod window_width s) =
          ((nxt + 1) mod window_width s + run_len (window s) (Suc j) to) mod window_width s" .
      also have "\<dots> = (nxt + 1 + run_len (window s) (Suc j) to) mod window_width s"
        by (simp add: mod_add_left_eq)
      finally show ?thesis using True u
        by (simp add: next_loop.simps[of s j to nxt] run_len_def upt)
    qed
  qed
qed

lemma fix_next:
  assumes "oldest t < window_width t"
  shows "(let s2 = t;
              s3 = s2\<lparr>next_w := oldest s2\<rparr>;
              s4 = s3\<lparr>next_w := next_loop s3 (oldest s3) (window_width s3) (next_w s3)\<rparr>;
              s5 = s4\<lparr>next_w := next_loop s4 0 (oldest s4) (next_w s4)\<rparr>
          in Some (if oldest s5 \<ge> window_width s5 then s5\<lparr>oldest := 0\<rparr> else s5)) =
         Some (t\<lparr>next_w := ((oldest t + run_len (window t) (oldest t) (window_width t))
                               mod window_width t
                             + run_len (window t) 0 (oldest t)) mod window_width t\<rparr>)"
  using assms by (simp add: Let_def next_loop_eq)

lemma c_ack_remove_acked:
  assumes "index < window_width s"
  shows "c_ack_remove (Some s) index = Some (acked s index)"
proof -
  let ?old = "if index = window_width s - 1 then 0 else index"
  let ?t = "s\<lparr>window := marked_window s index, oldest := ?old\<rparr>"
  have s1: "(if oldest s = index
             then s\<lparr>window := (window s)
                     [oldest s := (window s ! oldest s)\<lparr>is_used := False\<rparr>]\<rparr>
             else if oldest s < index
             then s\<lparr>window := clear_loop (window s) (oldest s) index\<rparr>
             else s\<lparr>window := clear_loop
                     (clear_loop (window s) (oldest s) (window_width s)) 0 index\<rparr>) =
            s\<lparr>window := marked_window s index\<rparr>"
    by (simp add: marked_window_def)
  have s2: "(if index \<ge> window_width (s\<lparr>window := marked_window s index\<rparr>) - 1
             then s\<lparr>window := marked_window s index\<rparr>\<lparr>oldest := 0\<rparr>
             else (let t = s\<lparr>window := marked_window s index\<rparr>\<lparr>oldest := index\<rparr>
                   in if oldest t \<ge> window_width t then t\<lparr>oldest := 0\<rparr> else t)) = ?t"
    using assms by (auto simp add: Let_def)
  have old: "oldest ?t < window_width ?t" using assms by simp
  have "c_ack_remove (Some s) index =
      Some (?t\<lparr>next_w := ((oldest ?t + run_len (window ?t) (oldest ?t) (window_width ?t))
                               mod window_width ?t
                             + run_len (window ?t) 0 (oldest ?t)) mod window_width ?t\<rparr>)"
    unfolding c_ack_remove_def option.case s1 Let_def[of "s\<lparr>window := marked_window s index\<rparr>"] s2
    by (rule fix_next[OF old])
  then show ?thesis by (simp add: acked_def Let_def)
qed

lemma acked_ok:
  assumes "wlsb_ok s" and "index < window_width s"
  shows "wlsb_ok (acked s index)"
  using assms by (auto simp add: wlsb_ok_def acked_def Let_def)

lemma c_ack_sn_wlsb_ok:
  assumes "wlsb_ok s"
  shows "\<exists>s'. c_ack_sn_wlsb (Some s) sn0 = Some s' \<and> wlsb_ok s' \<and>
           window_width s' = window_width s"
proof -
  from assms have old: "oldest s < window_width s" by (simp add: wlsb_ok_def)
  show ?thesis
  proof (cases "first_match s sn0")
    case None
    with assms show ?thesis by (simp add: c_ack_sn_wlsb_first_match[OF old])
  next
    case (Some i)
    with first_match_SomeD have i: "i < window_width s" by blast
    with Some assms show ?thesis
      by (simp add: c_ack_sn_wlsb_first_match[OF old] c_ack_remove_acked acked_ok)
        (simp add: acked_def Let_def)
  qed
qed


lemma apply_call_ok:
  assumes "wlsb_ok s"
  shows "\<exists>s' b'. apply_call f c (Some s, b) = Inr (Some s', b') \<and> wlsb_ok s' \<and>
           window_width s' = window_width s"
proof (cases c)
  case (Insert sn0 v)
  with assms show ?thesis
    by (simp add: c_add_wlsb_inserted inserted_ok) (simp add: inserted_def)
next
  case (Acknowledge sn0)
  with c_ack_sn_wlsb_ok[OF assms, of sn0] show ?thesis by auto
next
  case (Minimal_bits v)
  with assms show ?thesis by (simp add: c_get_k_wlsb_def Let_def split: prod.splits)
qed

lemma run_calls_ok:
  assumes "wlsb_ok s"
  shows "\<exists>s' b'. run_calls f cs (Some s, b) = Inr (Some s', b') \<and> wlsb_ok s' \<and>
           window_width s' = window_width s"
  using assms
proof (induction cs arbitrary: s b)
  case Nil
  then show ?case by simp
next
  case (Cons c cs)
  from apply_call_ok[OF Cons.prems, of f c b] obtain s1 b1 where
    st: "apply_call f c (Some s, b) = Inr (Some s1, b1)" and ok: "wlsb_ok s1"
    and w: "window_width s1 = window_width s" by blast
  from Cons.IH[OF ok, of b1] w st show ?case by auto
qed

text \<open>
  C6: after any sequence of insertions, acknowledgements and searches on a created
  object of width \<open>C\<close>, no assertion has failed, the window still has \<open>C\<close>
  slots and at most \<open>C\<close> entries are in use; an insertion overwrites the slot at
  \<open>next\<close>, advances \<open>oldest\<close> when that slot was in use, and leaves the window at
  \<open>C\<close> slots.
\<close>

theorem capacity_never_exceeded:
  assumes "0 < bits0" and "0 < C" and "C \<le> INT_MAX"
  shows "\<exists>s0 s b'. c_create_wlsb True True bits0 C p0 = Inr (Some s0) \<and>
           run_calls f calls (Some s0, b) = Inr (Some s, b') \<and>
           used_count s \<le> C \<and> length (window s) = C \<and>
           (\<forall>sn0 v. c_add_wlsb (Some s) sn0 v = Inr (Some (inserted s sn0 v)) \<and>
              length (window (inserted s sn0 v)) = C)"
proof -
  let ?s0 = "\<lparr>window = replicate C zeroed_entry, window_width = C, oldest = 0,
              next_w = 0, bits = bits0, p = p0\<rparr>"
  have cr: "c_create_wlsb True True bits0 C p0 = Inr (Some ?s0)"
    by (rule create_fresh[OF assms(1,2)])
  have ok0: "wlsb_ok ?s0" using assms by (simp add: wlsb_ok_def)
  from run_calls_ok[OF ok0, of f calls b] obtain s b' where
    run: "run_calls f calls (Some ?s0, b) = Inr (Some s, b')" and ok: "wlsb_ok s"
    and w: "window_width s = C" by auto
  from ok w have len: "length (window s) = C" by (simp add: wlsb_ok_def)
  have "used_count s \<le> length (window s)" by (simp add: used_count_def)
  with len have cnt: "used_count s \<le> C" by simp
  have ins: "\<forall>sn0 v. c_add_wlsb (Some s) sn0 v = Inr (Some (inserted s sn0 v)) \<and>
              length (window (inserted s sn0 v)) = C"
    using ok len by (simp add: c_add_wlsb_inserted) (simp add: inserted_def)
  from cr run cnt len ins show ?thesis by blast
qed


theorem capacity_never_exceeded_witness:
  "\<exists>s0 s b'. c_create_wlsb True True 4 3 0 = Inr (Some s0) \<and>
      run_calls lsb_interval
        [Insert 1 100, Insert 2 101, Insert 3 102, Insert 4 103, Acknowledge 3,
         Minimal_bits 103] (Some s0, 0) = Inr (Some s, b') \<and>
      used_count s \<le> 3 \<and> length (window s) = 3"
proof -
  have "(0::nat) < 4" "(0::nat) < 3" "(3::nat) \<le> INT_MAX" by (simp_all add: INT_MAX_def)
  from capacity_never_exceeded[OF this] show ?thesis by blast
qed

section \<open>The contiguous run of the entries in use\<close>

lemma ring_inserted:
  assumes ok: "wlsb_ok s" and inv: "ring_inv s n"
  shows "ring_inv (inserted s sn0 v) (if n < window_width s then Suc n else n)"
proof -
  let ?W = "window_width s"
  from ok have len: "length (window s) = ?W" and o: "oldest s < ?W" and nx: "next_w s < ?W"
    and W: "0 < ?W" by (simp_all add: wlsb_ok_def)
  from inv have n: "n \<le> ?W"
    and used: "\<And>j. j < ?W \<Longrightarrow> is_used (window s ! j) \<longleftrightarrow>
        (oldest s \<le> j \<and> j < oldest s + n) \<or> j + ?W < oldest s + n"
    and nxeq: "next_w s = (if oldest s + n < ?W then oldest s + n else oldest s + n - ?W)"
    by (simp_all add: ring_inv_def)
  have at_next: "is_used (window s ! next_w s) \<longleftrightarrow> n = ?W"
    using used[OF nx] nxeq n o by (auto split: if_splits)
  have upd: "\<And>j. j < ?W \<Longrightarrow>
      is_used ((window s)[next_w s := \<lparr>sn = sn0, value_w = v, is_used = True\<rparr>] ! j) \<longleftrightarrow>
        j = next_w s \<or> is_used (window s ! j)"
    using len nx by (auto simp add: nth_list_update)
  show ?thesis
  proof (cases "n < ?W")
    case True
    with at_next have nu: "\<not> is_used (window s ! next_w s)" by simp
    have "\<And>j. j < ?W \<Longrightarrow> (j = next_w s \<or> is_used (window s ! j)) \<longleftrightarrow>
        (oldest s \<le> j \<and> j < oldest s + Suc n) \<or> j + ?W < oldest s + Suc n"
      using used nxeq True o by (auto split: if_splits)
    moreover have "(next_w s + 1) mod ?W =
        (if oldest s + Suc n < ?W then oldest s + Suc n else oldest s + Suc n - ?W)"
      using nxeq True o by (auto simp: mod_if split: if_splits)
    ultimately show ?thesis using True nu n
      by (simp add: ring_inv_def inserted_def upd)
  next
    case False
    with n have nW: "n = ?W" by simp
    with at_next have u: "is_used (window s ! next_w s)" by simp
    from nW nxeq o have nxo: "next_w s = oldest s" by simp
    have all: "\<And>j. j < ?W \<Longrightarrow> is_used (window s ! j)" using used nW o by auto
    let ?o' = "(oldest s + 1) mod ?W"
    have o': "?o' < ?W" using W by simp
    have "(next_w s + 1) mod ?W = (if ?o' + ?W < ?W then ?o' + ?W else ?o' + ?W - ?W)"
      using nxo by simp
    moreover have "\<And>j. j < ?W \<Longrightarrow> (j = next_w s \<or> is_used (window s ! j)) \<longleftrightarrow>
        (?o' \<le> j \<and> j < ?o' + ?W) \<or> j + ?W < ?o' + ?W"
      using all by auto
    ultimately show ?thesis using False u nW
      by (simp add: ring_inv_def inserted_def upd del: One_nat_def)
  qed
qed


lemma run_len_below:
  assumes "\<And>k. j \<le> k \<Longrightarrow> k < to \<Longrightarrow> is_used (win ! k) \<longleftrightarrow> k < m"
  shows "run_len win j to = min to m - j"
  using assms
proof (induction "to - j" arbitrary: j)
  case 0
  then show ?case by (simp add: run_len_def)
next
  case (Suc d)
  then have lt: "j < to" by linarith
  then have upt: "[j..<to] = j # [Suc j..<to]" by (simp add: upt_conv_Cons)
  from Suc.hyps(2) have d: "d = to - Suc j" by linarith
  have ih: "run_len win (Suc j) to = min to m - Suc j"
    by (rule Suc.hyps(1)[OF d]) (use Suc.prems in auto)
  from Suc.prems[of j] lt have uj: "is_used (win ! j) \<longleftrightarrow> j < m" by simp
  show ?case
  proof (cases "j < m")
    case True
    with uj have "run_len win j to = Suc (run_len win (Suc j) to)"
      by (simp add: run_len_def upt)
    with ih True lt show ?thesis by (auto simp add: min_def)
  next
    case False
    with uj have "run_len win j to = 0" by (simp add: run_len_def upt)
    with False show ?thesis by simp
  qed
qed

lemma ring_acked:
  assumes ok: "wlsb_ok s" and inv: "ring_inv s n"
    and idx: "index < window_width s" and u: "is_used (window s ! index)"
    and ne: "index \<noteq> oldest s" and nl: "index \<noteq> window_width s - 1"
  shows "\<exists>n'. ring_inv (acked s index) n'"
proof -
  let ?W = "window_width s"
  let ?o = "oldest s"
  let ?win = "marked_window s index"
  define d where "d = (if ?o \<le> index then index - ?o else index + ?W - ?o)"
  define n' where "n' = n - d"
  from ok have len: "length (window s) = ?W" and o: "?o < ?W" and W: "0 < ?W"
    by (simp_all add: wlsb_ok_def)
  from inv have n: "n \<le> ?W"
    and used: "\<And>j. j < ?W \<Longrightarrow> is_used (window s ! j) \<longleftrightarrow>
        (?o \<le> j \<and> j < ?o + n) \<or> j + ?W < ?o + n"
    by (simp_all add: ring_inv_def)
  from used[OF idx] u o idx have dn: "d < n" unfolding d_def by (auto split: if_splits)
  have marked: "\<And>j. j < ?W \<Longrightarrow> is_used (?win ! j) \<longleftrightarrow>
      is_used (window s ! j) \<and> j \<notin> set (slots_before s index)"
    using ne by (simp add: marked_window_nth[OF len o idx])
  have sb: "\<And>j. j \<in> set (slots_before s index) \<longleftrightarrow>
      (if ?o \<le> index then ?o \<le> j \<and> j < index else (?o \<le> j \<and> j < ?W) \<or> j < index)"
    by (auto simp add: slots_before_eq[OF o idx])
  have used': "is_used (?win ! j) \<longleftrightarrow> (index \<le> j \<and> j < index + n') \<or> j + ?W < index + n'"
    if j: "j < ?W" for j
    unfolding marked[OF j] sb used[OF j] n'_def d_def using dn n o idx ne j
    by (auto split: if_splits simp: d_def)
  have n': "n' \<le> ?W" using n by (simp add: n'_def)
  have c1: "run_len ?win index ?W = min ?W (index + n') - index"
    by (rule run_len_below) (use used' n' in auto)
  have c2: "run_len ?win 0 index = min index (index + n' - ?W) - 0"
    by (rule run_len_below) (use used' n' idx in auto)
  have nxt: "((index + run_len ?win index ?W) mod ?W + run_len ?win 0 index) mod ?W =
      (if index + n' < ?W then index + n' else index + n' - ?W)"
  proof (cases "index + n' < ?W")
    case True
    then show ?thesis unfolding c1 c2 by (simp add: min_def)
  next
    case False
    then have "min ?W (index + n') - index = ?W - index" by (simp add: min_def)
    moreover from False n' idx have "min index (index + n' - ?W) - 0 = index + n' - ?W"
      by (auto simp add: min_def)
    moreover have "(index + (?W - index)) mod ?W = 0" using idx by simp
    moreover have "(index + n' - ?W) mod ?W = index + n' - ?W" using n' idx by simp
    ultimately show ?thesis unfolding c1 c2 using False by simp
  qed
  have "ring_inv (acked s index) n'"
    unfolding ring_inv_def acked_def Let_def using nl n' used' nxt by simp
  then show ?thesis ..
qed


lemma ring_position:
  assumes "ring_inv s n" and "oldest s < window_width s" and "d < window_width s"
  shows "is_used (window s ! ((oldest s + d) mod window_width s)) \<longleftrightarrow> d < n"
proof -
  let ?W = "window_width s"
  let ?j = "(oldest s + d) mod ?W"
  have j: "?j < ?W" using assms(3) by simp
  have jeq: "?j = (if oldest s + d < ?W then oldest s + d else oldest s + d - ?W)"
    using assms(2,3) by (simp add: mod_if)
  from assms(1) j have "is_used (window s ! ?j) \<longleftrightarrow>
      (oldest s \<le> ?j \<and> ?j < oldest s + n) \<or> ?j + ?W < oldest s + n"
    by (simp add: ring_inv_def)
  also have "\<dots> \<longleftrightarrow> d < n"
    unfolding jeq using assms(1,2,3) by (auto simp: ring_inv_def split: if_splits)
  finally show ?thesis .
qed

lemma dropWhile_prefix_closed:
  assumes "\<And>i k. i \<le> k \<Longrightarrow> k < length xs \<Longrightarrow> P (xs ! k) \<Longrightarrow> P (xs ! i)"
  shows "list_all (\<lambda>x. \<not> P x) (dropWhile P xs)"
  using assms
proof (induction xs)
  case Nil
  then show ?case by simp
next
  case (Cons x xs)
  show ?case
  proof (cases "P x")
    case True
    have "list_all (\<lambda>x. \<not> P x) (dropWhile P xs)"
    proof (rule Cons.IH)
      fix i k assume "i \<le> k" "k < length xs" "P (xs ! k)"
      with Cons.prems[of "Suc i" "Suc k"] show "P (xs ! i)" by simp
    qed
    with True show ?thesis by simp
  next
    case False
    have "\<not> P y" if "y \<in> set xs" for y
    proof
      assume "P y"
      from that obtain k where "k < length xs" "xs ! k = y" by (auto simp: in_set_conv_nth)
      with Cons.prems[of 0 "Suc k"] \<open>P y\<close> have "P x" by simp
      with False show False by simp
    qed
    with False show ?thesis by (simp add: list_all_iff)
  qed
qed

lemma ring_contiguous:
  assumes "ring_inv s n" and "oldest s < window_width s"
  shows "contiguous_run s"
  unfolding contiguous_run_def
proof (rule dropWhile_prefix_closed)
  fix i k
  assume ik: "i \<le> k" and k: "k < length (circular_order s)"
    and u: "is_used (window s ! (circular_order s ! k))"
  from k have kW: "k < window_width s" by (simp add: circular_order_def)
  with ik have iW: "i < window_width s" by simp
  from u kW have "k < n"
    by (simp add: circular_order_def ring_position[OF assms kW])
  with ik have "i < n" by simp
  with iW show "is_used (window s ! (circular_order s ! i))"
    by (simp add: circular_order_def ring_position[OF assms iW])
qed

lemma apply_call_ring:
  assumes "wlsb_ok s" and "ring_inv s n" and "plain_call c (Some s, b)"
  shows "\<exists>s' b' n'. apply_call f c (Some s, b) = Inr (Some s', b') \<and> wlsb_ok s' \<and>
           ring_inv s' n'"
proof (cases c)
  case (Insert sn0 v)
  with assms ring_inserted[OF assms(1,2), of sn0 v] show ?thesis
    by (auto simp add: c_add_wlsb_inserted inserted_ok)
next
  case (Acknowledge sn0)
  from assms(1) have old: "oldest s < window_width s" by (simp add: wlsb_ok_def)
  show ?thesis
  proof (cases "first_match s sn0")
    case None
    with assms Acknowledge show ?thesis
      by (auto simp add: c_ack_sn_wlsb_first_match[OF old])
  next
    case (Some i)
    from first_match_SomeD[OF Some] have i: "i < window_width s"
      and u: "is_used (window s ! i)" by (simp_all add: sn_match_def)
    from assms(3) Acknowledge Some have "i \<noteq> oldest s" "i \<noteq> window_width s - 1"
      by (simp_all add: plain_ack_def)
    from ring_acked[OF assms(1,2) i u this] obtain n' where "ring_inv (acked s i) n'" ..
    with Some Acknowledge i assms(1) show ?thesis
      by (auto simp add: c_ack_sn_wlsb_first_match[OF old] c_ack_remove_acked acked_ok)
  qed
next
  case (Minimal_bits v)
  with assms show ?thesis by (auto simp add: c_get_k_wlsb_def Let_def split: prod.splits)
qed

lemma run_calls_ring:
  assumes "wlsb_ok s" and "ring_inv s n" and "plain_run f cs (Some s, b)"
  shows "\<exists>s' b' n'. run_calls f cs (Some s, b) = Inr (Some s', b') \<and> wlsb_ok s' \<and>
           ring_inv s' n'"
  using assms
proof (induction cs arbitrary: s b n)
  case Nil
  then show ?case by auto
next
  case (Cons c cs)
  from Cons.prems(3) have pc: "plain_call c (Some s, b)" by simp
  from apply_call_ring[OF Cons.prems(1,2) pc, of f] obtain s1 b1 n1 where
    st: "apply_call f c (Some s, b) = Inr (Some s1, b1)" and ok: "wlsb_ok s1"
    and ring: "ring_inv s1 n1" by blast
  from Cons.prems(3) st have "plain_run f cs (Some s1, b1)" by simp
  from Cons.IH[OF ok ring this] st show ?case by auto
qed

text \<open>
  C7, as amended: in every state that a created object reaches by a run of insertions,
  searches and plain acknowledgements (those that find no match, or find their first
  match at a slot other than \<open>oldest\<close> and other than the last slot), the entries in
  use form a contiguous circular run that starts at \<open>oldest\<close>.
\<close>

theorem contiguous_run_kept:
  assumes "0 < bits0" and "0 < C" and "C \<le> INT_MAX"
    and "c_create_wlsb True True bits0 C p0 = Inr (Some s0)"
    and "plain_run f calls (Some s0, b)"
  shows "\<exists>s b'. run_calls f calls (Some s0, b) = Inr (Some s, b') \<and> contiguous_run s"
proof -
  from assms(4) create_fresh[OF assms(1,2), of p0]
  have s0: "s0 = \<lparr>window = replicate C zeroed_entry, window_width = C, oldest = 0,
              next_w = 0, bits = bits0, p = p0\<rparr>" by simp
  have ok0: "wlsb_ok s0" using assms(1-3) by (simp add: s0 wlsb_ok_def)
  have ring0: "ring_inv s0 0" by (simp add: s0 ring_inv_def zeroed_entry_def)
  from run_calls_ring[OF ok0 ring0 assms(5)] obtain s b' n where
    run: "run_calls f calls (Some s0, b) = Inr (Some s, b')" and ok: "wlsb_ok s"
    and ring: "ring_inv s n" by blast
  from ok have "oldest s < window_width s" by (simp add: wlsb_ok_def)
  from ring_contiguous[OF ring this] run show ?thesis by blast
qed

theorem contiguous_run_kept_witness:
  "\<exists>s b'. run_calls lsb_interval
       [Insert 1 100, Insert 2 101, Insert 3 102, Insert 4 103, Acknowledge 4,
        Minimal_bits 103, Acknowledge 9] (Some example_fresh, 0) = Inr (Some s, b') \<and>
     contiguous_run s"
proof -
  have "(0::nat) < 4" "(0::nat) < 3" "(3::nat) \<le> INT_MAX" by (simp_all add: INT_MAX_def)
  moreover note create_example_fresh
  moreover have "plain_run lsb_interval
       [Insert 1 100, Insert 2 101, Insert 3 102, Insert 4 103, Acknowledge 4,
        Minimal_bits 103, Acknowledge 9] (Some example_fresh, 0)"
    by code_simp
  ultimately show ?thesis by (rule contiguous_run_kept)
qed

text \<open>
  C7 as stated fails: after the insertions of (1, 10) and (2, 20) into a created object
  of width 3, the acknowledgement of 1 finds its match at \<open>oldest\<close> and marks that
  entry as unused without moving \<open>oldest\<close>; the entry in slot 1 is then in use
  beyond the unused slot 0 at \<open>oldest\<close>.
\<close>

theorem contiguous_run_counterexample:
  "c_create_wlsb True True 4 3 0 = Inr (Some example_fresh) \<and>
   run_calls lsb_interval [Insert 1 10, Insert 2 20, Acknowledge 1] (Some example_fresh, 0) =
     Inr (Some example_gap, 0) \<and>
   \<not> contiguous_run example_gap"
proof -
  have "run_calls lsb_interval [Insert 1 10, Insert 2 20, Acknowledge 1] (Some example_fresh, 0) =
     Inr (Some example_gap, 0)" by code_simp
  moreover have "\<not> contiguous_run example_gap" by code_simp
  ultimately show ?thesis using create_example_fresh by simp
qed

text \<open>
  An acknowledgement whose first match is at the last slot of the window, and not at
  \<open>oldest\<close>, breaks the run as well: \<open>oldest\<close> goes to slot 0 and not to the
  matched slot, which stays in use behind unused slots.
\<close>

lemma contiguous_run_last_slot:
  "run_calls lsb_interval [Insert 1 10, Insert 2 20, Insert 3 30, Acknowledge 3]
     (Some example_fresh, 0) = Inr (Some example_last, 0) \<and>
   \<not> contiguous_run example_last"
proof -
  have "run_calls lsb_interval [Insert 1 10, Insert 2 20, Insert 3 30, Acknowledge 3]
     (Some example_fresh, 0) = Inr (Some example_last, 0)" by code_simp
  moreover have "\<not> contiguous_run example_last" by code_simp
  ultimately show ?thesis by simp
qed

text \<open>
  In the states of plain runs the two agree: \<open>next\<close> is the slot that the walk from
  \<open>oldest\<close> reaches.
\<close>

lemma ring_next_is_walk:
  assumes "ring_inv s n" and "wlsb_ok s"
  shows "next_w s = walk_next s"
proof -
  let ?W = "window_width s"
  let ?g = "\<lambda>d. (oldest s + d) mod ?W"
  let ?win = "map (\<lambda>d. window s ! ?g d) [0..<?W]"
  from assms(2) have o: "oldest s < ?W" by (simp add: wlsb_ok_def)
  from assms(1) have n: "n \<le> ?W" by (simp add: ring_inv_def)
  have "takeWhile (\<lambda>j. is_used (window s ! j)) (circular_order s) =
      map ?g (takeWhile ((\<lambda>j. is_used (window s ! j)) \<circ> ?g) [0..<?W])"
    by (simp add: circular_order_def takeWhile_map)
  moreover have "takeWhile ((\<lambda>j. is_used (window s ! j)) \<circ> ?g) [0..<?W] =
      takeWhile (\<lambda>k. is_used (?win ! k)) [0..<?W]"
    by (rule takeWhile_cong) simp_all
  ultimately have "length (takeWhile (\<lambda>j. is_used (window s ! j)) (circular_order s)) =
      run_len ?win 0 ?W" by (simp add: run_len_def)
  also have "\<dots> = min ?W n - 0"
    by (rule run_len_below) (simp add: ring_position[OF assms(1) o])
  finally have "walk_next s = (oldest s + n) mod ?W" using n by (simp add: walk_next_def)
  also have "\<dots> = next_w s" using assms(1) o by (auto simp: ring_inv_def mod_if)
  finally show ?thesis by simp
qed

text \<open>
  C5: in a state that a created object reaches by insertions and an acknowledgement,
  the acknowledgement of 8 finds its match at \<open>oldest = 1\<close> and leaves \<open>next\<close> at
  2, although the walk from the new \<open>oldest\<close> meets an unused slot at once, at slot
  1: the second loop that fixes \<open>next\<close> runs even though the first one has left at
  an unused entry, and counts the entry in use at slot 0.
\<close>

theorem ack_next_diverges:
  "c_create_wlsb True True 4 3 0 = Inr (Some example_fresh) \<and>
   run_calls lsb_interval
     [Insert 1 10, Insert 2 20, Acknowledge 1, Insert 7 70, Insert 8 80]
     (Some example_fresh, 0) = Inr (Some example_stale, 0) \<and>
   first_match example_stale 8 = Some 1 \<and>
   c_ack_sn_wlsb (Some example_stale) 8 = Some example_after \<and>
   next_w example_after = 2 \<and> walk_next example_after = 1"
proof -
  have "run_calls lsb_interval
     [Insert 1 10, Insert 2 20, Acknowledge 1, Insert 7 70, Insert 8 80]
     (Some example_fresh, 0) = Inr (Some example_stale, 0)" by code_simp
  moreover have "first_match example_stale 8 = Some 1" by code_simp
  moreover have "c_ack_sn_wlsb (Some example_stale) 8 = Some example_after" by code_simp
  moreover have "next_w example_after = 2" by (simp add: example_after_def)
  moreover have "walk_next example_after = 1" by code_simp
  ultimately show ?thesis using create_example_fresh by simp
qed

end
